theory Spec2Isabelle
  imports Main "HOL-Library.Word"
begin

unbundle bit_operations_syntax

section \<open>Python values and built-ins the program relies on\<close>

text \<open>
  A Python \<open>bytes\<close> object is a list of 8-bit words; Python integers are unbounded and
  are modelled by \<open>int\<close>.
\<close>

type_synonym byte = "8 word"
type_synonym bytes = "byte list"

text \<open>
  The exceptions the program can raise. \<open>ValueError n\<close> is the one raised by the key-length
  check of the constructor (\<open>n\<close> is the length reported in its message), \<open>TypeError\<close> the
  one raised for an argument of an unsupported type, \<open>OverflowError\<close> the one raised by
  \<open>int.to_bytes\<close> for a negative integer or one that does not fit the width.
\<close>

datatype py_error = ValueError nat | TypeError | OverflowError

datatype byteorder = Little | Big

text \<open>The \<open>n\<close> low base-256 digits of an integer, least significant first.\<close>

fun le_digits :: "nat \<Rightarrow> int \<Rightarrow> bytes" where
  "le_digits 0 v = []"
| "le_digits (Suc n) v = word_of_int (v mod 256) # le_digits n (v div 256)"

text \<open>
  \<open>int.to_bytes(length, byteorder)\<close> (unsigned): raises \<open>OverflowError\<close> for a negative
  integer and for one that needs more than \<open>length\<close> bytes.
\<close>

definition to_bytes :: "int \<Rightarrow> nat \<Rightarrow> byteorder \<Rightarrow> py_error + bytes" where
  "to_bytes v n order =
     (if v < 0 then Inl OverflowError
      else if 2 ^ (8 * n) \<le> v then Inl OverflowError
      else Inr (case order of Little \<Rightarrow> le_digits n v | Big \<Rightarrow> rev (le_digits n v)))"

text \<open>\<open>int.from_bytes(data, byteorder)\<close> (unsigned).\<close>

fun from_le :: "bytes \<Rightarrow> int" where
  "from_le [] = 0"
| "from_le (b # bs) = uint b + 256 * from_le bs"

definition from_bytes :: "bytes \<Rightarrow> byteorder \<Rightarrow> int" where
  "from_bytes data order = (case order of Little \<Rightarrow> from_le data | Big \<Rightarrow> from_le (rev data))"

text \<open>
  \<open>b''.join(word.to_bytes(4, byteorder='little') for word in words)\<close>: the generator is
  consumed in order and the first conversion that raises ends the whole expression.
\<close>

fun join_words :: "int list \<Rightarrow> py_error + bytes" where
  "join_words [] = Inr []"
| "join_words (word # words) =
     (case to_bytes word 4 Little of
        Inl e \<Rightarrow> Inl e
      | Inr b \<Rightarrow> (case join_words words of Inl e \<Rightarrow> Inl e | Inr bs \<Rightarrow> Inr (b @ bs)))"

text \<open>\<open>bytes.hex()\<close>: two lowercase hexadecimal digits per byte.\<close>

definition hex_digit :: "nat \<Rightarrow> char" where
  "hex_digit d = ''0123456789abcdef'' ! d"

definition hex :: "bytes \<Rightarrow> string" where
  "hex data = concat (map (\<lambda>b. [hex_digit (unat b div 16), hex_digit (unat b mod 16)]) data)"

subsection \<open>\<open>hashlib.sha3_512\<close>\<close>

text \<open>
  The program does not implement the hash: it calls the library's SHA3-512, the function of
  FIPS 202 (the Keccak-f[1600] permutation in a sponge with a rate of 576 bits = 72 bytes,
  the domain-separation bits \<open>01\<close> followed by the pad10*1 padding, and 512 bits of
  output). The library function is written out here, so that the digests of the model are
  those of the program. The state is 25 lanes of 64 bits, lane \<open>(x, y)\<close> at index
  \<open>x + 5 * y\<close>; bytes enter and leave a lane least significant byte first.
\<close>

type_synonym lane = "64 word"

definition keccak_rc :: "lane list" where
  "keccak_rc =
     [0x0000000000000001, 0x0000000000008082, 0x800000000000808A, 0x8000000080008000,
      0x000000000000808B, 0x0000000080000001, 0x8000000080008081, 0x8000000000008009,
      0x000000000000008A, 0x0000000000000088, 0x0000000080008009, 0x000000008000000A,
      0x000000008000808B, 0x800000000000008B, 0x8000000000008089, 0x8000000000008003,
      0x8000000000008002, 0x8000000000000080, 0x000000000000800A, 0x800000008000000A,
      0x8000000080008081, 0x8000000000008080, 0x0000000080000001, 0x8000000080008008]"

definition keccak_rot :: "nat list" where
  "keccak_rot =
     [0, 1, 62, 28, 27,  36, 44, 6, 55, 20,  3, 10, 43, 25, 39,
      41, 45, 15, 21, 8,  18, 2, 61, 56, 14]"

definition theta :: "lane list \<Rightarrow> lane list" where
  "theta A =
     (let C = map (\<lambda>x. A ! x XOR A ! (x + 5) XOR A ! (x + 10) XOR A ! (x + 15) XOR A ! (x + 20)) [0..<5];
          D = map (\<lambda>x. C ! ((x + 4) mod 5) XOR word_rotl 1 (C ! ((x + 1) mod 5))) [0..<5]
      in map (\<lambda>i. A ! i XOR D ! (i mod 5)) [0..<25])"

definition rho_pi :: "lane list \<Rightarrow> lane list" where
  "rho_pi A =
     map (\<lambda>i. let x = (i mod 5 + 3 * (i div 5)) mod 5; y = i mod 5
              in word_rotl (keccak_rot ! (x + 5 * y)) (A ! (x + 5 * y))) [0..<25]"

definition chi :: "lane list \<Rightarrow> lane list" where
  "chi B =
     map (\<lambda>i. let x = i mod 5; y = i div 5
              in B ! i XOR (NOT (B ! ((x + 1) mod 5 + 5 * y)) AND B ! ((x + 2) mod 5 + 5 * y)))
       [0..<25]"

definition iota :: "lane \<Rightarrow> lane list \<Rightarrow> lane list" where
  "iota rc A = A[0 := A ! 0 XOR rc]"

definition keccak_round :: "lane \<Rightarrow> lane list \<Rightarrow> lane list" where
  "keccak_round rc A = iota rc (chi (rho_pi (theta A)))"

definition keccak_f :: "lane list \<Rightarrow> lane list" where
  "keccak_f A = fold keccak_round keccak_rc A"

definition lane_of_bytes :: "bytes \<Rightarrow> lane" where
  "lane_of_bytes bs = foldr (\<lambda>b acc. ucast b OR push_bit 8 acc) bs 0"

definition bytes_of_lane :: "lane \<Rightarrow> bytes" where
  "bytes_of_lane w = map (\<lambda>i. ucast (drop_bit (8 * i) w)) [0..<8]"

definition sha3_pad :: "bytes \<Rightarrow> bytes" where
  "sha3_pad m =
     (let q = 72 - length m mod 72
      in if q = 1 then m @ [0x86] else m @ [0x06] @ replicate (q - 2) 0 @ [0x80])"

definition absorb :: "bytes \<Rightarrow> nat \<Rightarrow> lane list \<Rightarrow> lane list" where
  "absorb P k S =
     keccak_f (map (\<lambda>i. if i < 9 then S ! i XOR lane_of_bytes (take 8 (drop (72 * k + 8 * i) P))
                         else S ! i) [0..<25])"

definition sha3_512 :: "bytes \<Rightarrow> bytes" where
  "sha3_512 m =
     (let P = sha3_pad m;
          S = fold (absorb P) [0..<length P div 72] (replicate 25 0)
      in take 64 (concat (map bytes_of_lane S)))"

text \<open>
  A hasher object accumulates what \<open>update\<close> gave it; \<open>digest\<close> runs SHA3-512 on
  the accumulated bytes. Every run of the hash is recorded in a log (the list of the byte
  strings it has been run on, oldest first), so that a path of the program on which the hash
  is not invoked is a path that leaves the log as it was.
\<close>

type_synonym hash_log = "bytes list"

record hasher =
  buffer :: bytes

definition sha3_512_new :: hasher where
  "sha3_512_new = \<lparr>buffer = []\<rparr>"

definition hasher_update :: "hasher \<Rightarrow> bytes \<Rightarrow> hasher" where
  "hasher_update hs data = hs\<lparr>buffer := buffer hs @ data\<rparr>"

definition hasher_digest :: "hasher \<Rightarrow> hash_log \<Rightarrow> bytes \<times> hash_log" where
  "hasher_digest hs log = (sha3_512 (buffer hs), log @ [buffer hs])"

section \<open>\<open>HMAC/hmac_sha3_512.py\<close>: class \<open>HMAC_SHA3_512\<close>\<close>

record HMAC_SHA3_512 =
  key :: bytes

definition IPAD_BYTE :: byte where
  "IPAD_BYTE = 0x36"

text \<open>
  The constructor's argument: an \<open>int\<close>, a \<open>bytes\<close> object, or a value of any other type.
\<close>

datatype key_arg = KeyInt int | KeyBytes bytes | KeyOther

text \<open>\<open>__init__\<close>: the instance on success, the exception raised otherwise.\<close>

definition init :: "key_arg \<Rightarrow> py_error + HMAC_SHA3_512" where
  "init k =
     (case k of
        KeyInt i \<Rightarrow>
          (case to_bytes i 64 Big of Inl e \<Rightarrow> Inl e | Inr b \<Rightarrow> Inr \<lparr>key = b\<rparr>)
      | KeyBytes b \<Rightarrow>
          (if length b \<noteq> 64 then Inl (ValueError (length b)) else Inr \<lparr>key = b\<rparr>)
      | KeyOther \<Rightarrow> Inl TypeError)"

definition pad_key :: "HMAC_SHA3_512 \<Rightarrow> bytes" where
  "pad_key self = key self @ replicate 8 0"

definition compute_ipad_block :: "HMAC_SHA3_512 \<Rightarrow> bytes" where
  "compute_ipad_block self =
     (let key_padded = pad_key self;
          ipad = replicate 72 IPAD_BYTE
      in map (\<lambda>(a, b). a XOR b) (zip key_padded ipad))"

text \<open>
  The message argument of \<open>compute\<close>: a list (of integers), a \<open>bytes\<close> object, or a value
  of any other type.
\<close>

datatype message_arg = MsgList "int list" | MsgBytes bytes | MsgOther

text \<open>
  \<open>compute\<close> returns its result (or the exception raised), the instance as the call leaves
  it, and the log of the hash primitive.
\<close>

definition compute ::
  "HMAC_SHA3_512 \<Rightarrow> message_arg \<Rightarrow> hash_log
     \<Rightarrow> (py_error + bytes) \<times> HMAC_SHA3_512 \<times> hash_log" where
  "compute self message log =
     (case (case message of
              MsgList words \<Rightarrow> join_words words
            | MsgBytes b \<Rightarrow> Inr b
            | MsgOther \<Rightarrow> Inl TypeError) of
        Inl e \<Rightarrow> (Inl e, self, log)
      | Inr msg_bytes \<Rightarrow>
          (let ipad_block = compute_ipad_block self;
               data = ipad_block @ msg_bytes;
               hs = hasher_update sha3_512_new data;
               (d, log') = hasher_digest hs log
           in (Inr d, self, log')))"

definition compute_hex ::
  "HMAC_SHA3_512 \<Rightarrow> message_arg \<Rightarrow> hash_log
     \<Rightarrow> (py_error + string) \<times> HMAC_SHA3_512 \<times> hash_log" where
  "compute_hex self message log =
     (case compute self message log of
        (Inl e, self', log') \<Rightarrow> (Inl e, self', log')
      | (Inr d, self', log') \<Rightarrow> (Inr (hex d), self', log'))"

text \<open>
  The call sequence of the callers (\<open>compute_hmac.py\<close>, \<open>verify_hmac.py\<close>, \<open>test_hmac\<close>):
  \<open>hmac = HMAC_SHA3_512(key); hmac.compute(message)\<close>. An exception of the constructor ends
  the sequence before \<open>compute\<close> is entered.
\<close>

definition construct_and_compute ::
  "key_arg \<Rightarrow> message_arg \<Rightarrow> hash_log \<Rightarrow> (py_error + bytes) \<times> hash_log" where
  "construct_and_compute k message log =
     (case init k of
        Inl e \<Rightarrow> (Inl e, log)
      | Inr hmac \<Rightarrow> (case compute hmac message log of (r, _, log') \<Rightarrow> (r, log')))"

section \<open>\<open>SHA3/sha3_512.py\<close>: class \<open>SHA3_512_Hardware\<close>\<close>

definition hash_puf_mode ::
  "int \<Rightarrow> hash_log \<Rightarrow> (py_error + bytes) \<times> hash_log" where
  "hash_puf_mode data_704bit log =
     (case to_bytes data_704bit 88 Little of
        Inl e \<Rightarrow> (Inl e, log)
      | Inr data_bytes \<Rightarrow>
          (let hs = hasher_update sha3_512_new data_bytes;
               (d, log') = hasher_digest hs log
           in (Inr d, log')))"

definition hash_block_mode ::
  "int list \<Rightarrow> hash_log \<Rightarrow> (py_error + bytes) \<times> hash_log" where
  "hash_block_mode words log =
     (case join_words words of
        Inl e \<Rightarrow> (Inl e, log)
      | Inr data_bytes \<Rightarrow>
          (let hs = hasher_update sha3_512_new data_bytes;
               (d, log') = hasher_digest hs log
           in (Inr d, log')))"

definition hash_bytes ::
  "bytes \<Rightarrow> hash_log \<Rightarrow> bytes \<times> hash_log" where
  "hash_bytes data log =
     (let hs = hasher_update sha3_512_new data in hasher_digest hs log)"

text \<open>\<open>test_vectors\<close>, test 1: \<open>puf_data_1 = int('AA' * 88, 16)\<close>.\<close>

definition puf_data_1 :: int where
  "puf_data_1 = 0xAAAAAAAAAAAAAAAAAAAAAAAAAAAAAAAAAAAAAAAAAAAAAAAAAAAAAAAAAAAAAAAAAAAAAAAAAAAAAAAAAAAAAAAAAAAAAAAAAAAAAAAAAAAAAAAAAAAAAAAAAAAAAAAAAAAAAAAAAAAAAAAAAAAAAAAAAAAAAAAAAAAAAAAAAAAAAAAA"

section \<open>The codec and the validity conditions as the specification words them\<close>

text \<open>
  \<open>encode_words_le\<close> of the specification: for each word in order, emit 4 bytes, least
  significant byte first, and concatenate in sequence order; every word must be in
  \<open>[0, 2^32)\<close>, and the operation fails with a range error otherwise (the program's range
  error is Python's \<open>OverflowError\<close>).
\<close>

definition word_in_range :: "int \<Rightarrow> bool" where
  "word_in_range w = (0 \<le> w \<and> w < 2 ^ 32)"

definition word_le4 :: "int \<Rightarrow> bytes" where
  "word_le4 w =
     [word_of_int (w mod 256), word_of_int (w div 256 mod 256),
      word_of_int (w div 65536 mod 256), word_of_int (w div 16777216 mod 256)]"

definition encode_words_le :: "int list \<Rightarrow> py_error + bytes" where
  "encode_words_le words =
     (if list_all word_in_range words then Inr (concat (map word_le4 words))
      else Inl OverflowError)"

text \<open>
  A valid message: any byte string, or a sequence of words each of which fits in 32 bits.
\<close>

fun valid_message :: "message_arg \<Rightarrow> bool" where
  "valid_message (MsgList words) = list_all word_in_range words"
| "valid_message (MsgBytes b) = True"
| "valid_message MsgOther = False"

text \<open>
  The encoded message of the specification (step 4 of the contract of \<open>compute\<close>): a word
  sequence is encoded by \<open>encode_words_le\<close>, a byte string is used as it is.
\<close>

fun message_bytes :: "message_arg \<Rightarrow> bytes" where
  "message_bytes (MsgList words) = concat (map word_le4 words)"
| "message_bytes (MsgBytes b) = b"
| "message_bytes MsgOther = []"

section \<open>Facts about the built-ins\<close>

lemma length_le_digits [simp]: "length (le_digits n v) = n"
  by (induction n arbitrary: v) simp_all

lemma uint_byte_mod: "uint (word_of_int (v mod 256) :: byte) = v mod 256"
  by (simp add: uint_word_of_int)

lemma byte_of_mod: "(word_of_int (v mod 256) :: byte) = word_of_int v"
  by (simp add: word_uint_eq_iff uint_word_of_int)

lemma div256_less: "(v::int) < 256 * X \<Longrightarrow> v div 256 < X"
  by linarith

lemma pow256: "(256::int) ^ n = 2 ^ (8 * n)"
  by (simp add: power_mult)

lemma from_le_le_digits: "0 \<le> v \<Longrightarrow> v < 256 ^ n \<Longrightarrow> from_le (le_digits n v) = v"
proof (induction n arbitrary: v)
  case 0
  then show ?case by simp
next
  case (Suc n)
  have "v div 256 < 256 ^ n" using Suc.prems by (simp add: div256_less)
  moreover have "0 \<le> v div 256" using Suc.prems by simp
  ultimately have "from_le (le_digits n (v div 256)) = v div 256" by (rule Suc.IH[rotated])
  then show ?case by (simp add: uint_byte_mod)
qed

lemma from_le_bounds: "0 \<le> from_le bs \<and> from_le bs < 256 ^ length bs"
proof (induction bs)
  case Nil
  then show ?case by simp
next
  case (Cons b bs)
  have "uint b < 256" using uint_bounded [of b] by simp
  moreover have "0 \<le> uint b" by simp
  ultimately show ?case using Cons by simp
qed

lemma le_digits_from_le: "le_digits (length bs) (from_le bs) = bs"
proof (induction bs)
  case Nil
  then show ?case by simp
next
  case (Cons b bs)
  have b: "0 \<le> uint b" "uint b < 256" using uint_bounded [of b] by simp_all
  then have "(uint b + 256 * from_le bs) div 256 = from_le bs"
    and "(uint b + 256 * from_le bs) mod 256 = uint b"
    by simp_all
  with Cons show ?case by simp
qed

lemma le_digits_nth: "i < n \<Longrightarrow> le_digits n v ! i = word_of_int (v div 256 ^ i)"
proof (induction n arbitrary: v i)
  case 0
  then show ?case by simp
next
  case (Suc n)
  show ?case
  proof (cases i)
    case 0
    then show ?thesis by (simp add: byte_of_mod)
  next
    case (Suc j)
    with Suc.prems have "j < n" by simp
    then have "le_digits n (v div 256) ! j = word_of_int (v div 256 div 256 ^ j)"
      by (rule Suc.IH)
    moreover have "v div 256 div 256 ^ j = v div (256 * 256 ^ j)"
      by (subst zdiv_zmult2_eq) simp_all
    ultimately show ?thesis using Suc by simp
  qed
qed

lemma le_digits_map: "le_digits n v = map (\<lambda>i. word_of_int (v div 256 ^ i)) [0..<n]"
  by (rule nth_equalityI) (simp_all add: le_digits_nth)

lemma rev_le_digits_map:
  "rev (le_digits n v) = map (\<lambda>i. word_of_int (v div 256 ^ (n - 1 - i))) [0..<n]"
  by (rule nth_equalityI) (simp_all add: rev_nth le_digits_nth)

lemma le_digits_extend:
  "0 \<le> v \<Longrightarrow> v < 256 ^ n \<Longrightarrow> le_digits (n + m) v = le_digits n v @ replicate m 0"
proof (induction n arbitrary: v)
  case 0
  then have "v = 0" by simp
  moreover have "le_digits m 0 = replicate m 0" by (induction m) simp_all
  ultimately show ?case by simp
next
  case (Suc n)
  have "v div 256 < 256 ^ n" using Suc.prems by (simp add: div256_less)
  moreover have "0 \<le> v div 256" using Suc.prems by simp
  ultimately have "le_digits (n + m) (v div 256) = le_digits n (v div 256) @ replicate m 0"
    by (rule Suc.IH[rotated])
  then show ?case by simp
qed

lemma to_bytes_little: "0 \<le> v \<Longrightarrow> v < 2 ^ (8 * n) \<Longrightarrow> to_bytes v n Little = Inr (le_digits n v)"
  by (simp add: to_bytes_def)

lemma to_bytes_big: "0 \<le> v \<Longrightarrow> v < 2 ^ (8 * n) \<Longrightarrow> to_bytes v n Big = Inr (rev (le_digits n v))"
  by (simp add: to_bytes_def)

lemma to_bytes_overflow: "v < 0 \<or> 2 ^ (8 * n) \<le> v \<Longrightarrow> to_bytes v n order = Inl OverflowError"
  by (auto simp add: to_bytes_def)

lemma length_hex: "length (hex d) = 2 * length d"
  by (induction d) (simp_all add: hex_def)

lemma concat_blocks_nth:
  "\<forall>xs\<in>set xss. length xs = n \<Longrightarrow> k < length xss \<Longrightarrow> j < n \<Longrightarrow>
   concat xss ! (n * k + j) = xss ! k ! j"
proof (induction xss arbitrary: k)
  case Nil
  then show ?case by simp
next
  case (Cons xs xss)
  show ?case
  proof (cases k)
    case 0
    with Cons.prems show ?thesis by (simp add: nth_append)
  next
    case (Suc k')
    with Cons.prems have "concat xss ! (n * k' + j) = xss ! k' ! j"
      by (intro Cons.IH) simp_all
    with Cons.prems Suc show ?thesis by (simp add: nth_append add.assoc)
  qed
qed

lemma map2_xor_twice:
  "length xs = length ys \<Longrightarrow> map2 (XOR) (map2 (XOR) xs ys) ys = (xs :: bytes)"
  by (induction xs ys rule: list_induct2) (simp_all add: xor.assoc)

subsection \<open>Words as four bytes\<close>

lemma div_div_256:
  "(w::int) div 256 div 256 = w div 65536"
  "(w::int) div 65536 div 256 = w div 16777216"
  by (subst zdiv_zmult2_eq[symmetric], simp, simp)+

lemma to_bytes_word: "word_in_range w \<Longrightarrow> to_bytes w 4 Little = Inr (word_le4 w)"
  by (simp add: to_bytes_def word_in_range_def word_le4_def eval_nat_numeral div_div_256)

lemma to_bytes_word_bad: "\<not> word_in_range w \<Longrightarrow> to_bytes w 4 Little = Inl OverflowError"
  by (auto simp add: to_bytes_def word_in_range_def)

lemma join_words_ok: "list_all word_in_range ws \<Longrightarrow> join_words ws = Inr (concat (map word_le4 ws))"
  by (induction ws) (simp_all add: to_bytes_word)

lemma join_words_bad: "\<not> list_all word_in_range ws \<Longrightarrow> join_words ws = Inl OverflowError"
proof (induction ws)
  case Nil then show ?case by simp
next
  case (Cons w ws)
  show ?case
  proof (cases "word_in_range w")
    case True
    with Cons show ?thesis by (simp add: to_bytes_word)
  next
    case False
    then show ?thesis by (simp add: to_bytes_word_bad)
  qed
qed

lemma length_concat_le4: "length (concat (map word_le4 W)) = 4 * length W"
  by (induction W) (simp_all add: word_le4_def)

lemma word_le4_nth: "j < 4 \<Longrightarrow> word_le4 w ! j = word_of_int (w div 256 ^ j)"
proof -
  assume "j < 4"
  then consider "j = 0" | "j = 1" | "j = 2" | "j = 3" by linarith
  then show ?thesis
    by cases (simp_all add: word_le4_def byte_of_mod)
qed

lemma concat_le4_nth:
  assumes "k < length W" and "j < 4"
  shows "concat (map word_le4 W) ! (4 * k + j) = word_of_int (W ! k div 256 ^ j)"
proof -
  have "\<forall>xs\<in>set (map word_le4 W). length xs = 4" by (auto simp add: word_le4_def)
  moreover have "k < length (map word_le4 W)" using assms by simp
  ultimately have "concat (map word_le4 W) ! (4 * k + j) = map word_le4 W ! k ! j"
    using assms(2) by (rule concat_blocks_nth)
  with assms show ?thesis by (simp add: word_le4_nth)
qed

lemma not_all_in_range:
  assumes "w \<in> set W" and "w < 0 \<or> 2 ^ 32 \<le> w"
  shows "\<not> list_all word_in_range W"
proof -
  from assms(2) have "\<not> word_in_range w" by (auto simp add: word_in_range_def)
  with assms(1) show ?thesis by (auto simp add: list_all_iff)
qed

lemma encode_words_le_ok:
  "list_all word_in_range W \<Longrightarrow> encode_words_le W = Inr (concat (map word_le4 W))"
  by (simp add: encode_words_le_def)

subsection \<open>The digest has 64 bytes\<close>

lemma hasher_run:
  "hasher_digest (hasher_update sha3_512_new data) log = (sha3_512 data, log @ [data])"
  by (simp add: hasher_update_def sha3_512_new_def hasher_digest_def)

lemma length_keccak_round: "length (keccak_round rc A) = 25"
  by (simp add: keccak_round_def iota_def chi_def)

lemma length_fold_rounds:
  "length (fold keccak_round rcs A) = (if rcs = [] then length A else 25)"
  by (induction rcs arbitrary: A) (simp_all add: length_keccak_round)

lemma length_keccak_f: "length (keccak_f A) = 25"
  by (simp add: keccak_f_def length_fold_rounds) (simp add: keccak_rc_def)

lemma length_fold_absorb: "length S = 25 \<Longrightarrow> length (fold (absorb P) ks S) = 25"
  by (induction ks arbitrary: S) (simp_all add: absorb_def length_keccak_f)

lemma length_state_bytes: "length (concat (map bytes_of_lane S)) = 8 * length S"
  by (induction S) (simp_all add: bytes_of_lane_def)

lemma length_sha3_512: "length (sha3_512 m) = 64"
  by (simp add: sha3_512_def Let_def length_state_bytes length_fold_absorb)

section \<open>Facts about the program\<close>

lemma init_bytes: "length K = 64 \<Longrightarrow> init (KeyBytes K) = Inr \<lparr>key = K\<rparr>"
  by (simp add: init_def)

lemma init_int_ok:
  "0 \<le> K \<Longrightarrow> K < 2 ^ 512 \<Longrightarrow> init (KeyInt K) = Inr \<lparr>key = rev (le_digits 64 K)\<rparr>"
  by (simp add: init_def to_bytes_big)

lemma init_int_overflow:
  "K < 0 \<or> 2 ^ 512 \<le> K \<Longrightarrow> init (KeyInt K) = Inl OverflowError"
  by (simp add: init_def to_bytes_overflow)

lemma init_key_length: "init k = Inr self \<Longrightarrow> length (key self) = 64"
  by (auto simp add: init_def to_bytes_def split: key_arg.splits if_splits byteorder.splits)

lemma be_zero_extended:
  assumes "0 \<le> K" and "n \<le> 64" and "K < 256 ^ n"
  shows "rev (le_digits 64 K) =
         replicate (64 - n) 0 @ map (\<lambda>i. word_of_int (K div 256 ^ (n - 1 - i))) [0..<n]"
proof -
  from assms(2) have "64 = n + (64 - n)" by simp
  then have "le_digits 64 K = le_digits (n + (64 - n)) K" by simp
  also have "\<dots> = le_digits n K @ replicate (64 - n) 0"
    using assms(1,3) by (rule le_digits_extend)
  finally show ?thesis by (simp add: rev_le_digits_map)
qed

lemma ipad_block_eq:
  "compute_ipad_block self = map2 (XOR) (key self @ replicate 8 0) (replicate 72 0x36)"
  by (simp add: compute_ipad_block_def pad_key_def IPAD_BYTE_def)

lemma length_ipad_block: "length (key self) = 64 \<Longrightarrow> length (compute_ipad_block self) = 72"
  by (simp add: compute_ipad_block_def pad_key_def)

lemma compute_bytes:
  "compute self (MsgBytes M) log =
     (Inr (sha3_512 (compute_ipad_block self @ M)), self, log @ [compute_ipad_block self @ M])"
  by (simp add: compute_def hasher_run Let_def)

lemma compute_words:
  "list_all word_in_range W \<Longrightarrow>
   compute self (MsgList W) log = compute self (MsgBytes (concat (map word_le4 W))) log"
  by (simp add: compute_def join_words_ok)

lemma compute_words_bad:
  "\<not> list_all word_in_range W \<Longrightarrow> compute self (MsgList W) log = (Inl OverflowError, self, log)"
  by (simp add: compute_def join_words_bad)

lemma compute_valid:
  "valid_message message \<Longrightarrow>
   compute self message log =
     (Inr (sha3_512 (compute_ipad_block self @ message_bytes message)), self,
      log @ [compute_ipad_block self @ message_bytes message])"
proof (cases message)
  case (MsgList W)
  assume "valid_message message"
  with MsgList have "list_all word_in_range W" by simp
  then have "compute self (MsgList W) log = compute self (MsgBytes (concat (map word_le4 W))) log"
    by (rule compute_words)
  with MsgList show ?thesis by (simp add: compute_bytes)
next
  case (MsgBytes M)
  then show ?thesis by (simp add: compute_bytes)
next
  case MsgOther
  assume "valid_message message"
  with MsgOther show ?thesis by simp
qed

lemma compute_keeps_instance: "fst (snd (compute self message log)) = self"
  by (simp add: compute_def hasher_run Let_def split: sum.splits message_arg.splits)

lemma compute_hex_keeps_instance: "fst (snd (compute_hex self message log)) = self"
  using compute_keeps_instance [of self message log]
  by (auto simp add: compute_hex_def split: prod.splits sum.splits)

lemma construct_and_compute_ok:
  "init k = Inr self \<Longrightarrow>
   construct_and_compute k message log =
     (case compute self message log of (r, _, log') \<Rightarrow> (r, log'))"
  by (simp add: construct_and_compute_def)

lemma hash_puf_mode_ok:
  "0 \<le> V \<Longrightarrow> V < 2 ^ 704 \<Longrightarrow>
   hash_puf_mode V log = (Inr (sha3_512 (le_digits 88 V)), log @ [le_digits 88 V])"
  by (simp add: hash_puf_mode_def to_bytes_little hasher_run)

lemma puf_data_1_bytes: "from_bytes (replicate 88 0xAA) Big = puf_data_1"
  unfolding puf_data_1_def by code_simp

lemma hash_block_mode_ok:
  "list_all word_in_range W \<Longrightarrow>
   hash_block_mode W log =
     (Inr (sha3_512 (concat (map word_le4 W))), log @ [concat (map word_le4 W)])"
  by (simp add: hash_block_mode_def join_words_ok hasher_run)

lemma hash_block_mode_bad:
  "\<not> list_all word_in_range W \<Longrightarrow> hash_block_mode W log = (Inl OverflowError, log)"
  by (simp add: hash_block_mode_def join_words_bad)

section \<open>The claims\<close>

text \<open>
  C1. For every key \<open>K\<close> of exactly 64 bytes and every message given as bytes \<open>M\<close>,
  \<open>HMAC_SHA3_512(K).compute(M)\<close> returns the SHA3-512 digest of the XOR block followed by
  \<open>M\<close>. The padded key block is \<open>K\<close> followed by 8 zero bytes and has 72 bytes; the XOR
  block has 72 bytes, and its byte \<open>i\<close> is byte \<open>i\<close> of the padded key block XOR
  \<open>0x36\<close>. The hash is run exactly once, on that concatenation.
\<close>

theorem hmac_bytes_message_digest:
  assumes "length K = 64"
  shows "length (K @ replicate 8 (0::byte)) = 72
       \<and> length (map2 (XOR) (K @ replicate 8 0) (replicate 72 (0x36::byte))) = 72
       \<and> (\<forall>i<72. map2 (XOR) (K @ replicate 8 0) (replicate 72 0x36) ! i
                     = (K @ replicate 8 0) ! i XOR 0x36)
       \<and> construct_and_compute (KeyBytes K) (MsgBytes M) log =
           (Inr (sha3_512 (map2 (XOR) (K @ replicate 8 0) (replicate 72 0x36) @ M)),
            log @ [map2 (XOR) (K @ replicate 8 0) (replicate 72 0x36) @ M])"
proof -
  have init: "init (KeyBytes K) = Inr \<lparr>key = K\<rparr>"
    using assms by (simp add: init_def)
  have blk: "compute_ipad_block \<lparr>key = K\<rparr> = map2 (XOR) (K @ replicate 8 0) (replicate 72 0x36)"
    by (simp add: compute_ipad_block_def pad_key_def IPAD_BYTE_def)
  have "construct_and_compute (KeyBytes K) (MsgBytes M) log =
           (Inr (sha3_512 (map2 (XOR) (K @ replicate 8 0) (replicate 72 0x36) @ M)),
            log @ [map2 (XOR) (K @ replicate 8 0) (replicate 72 0x36) @ M])"
    by (simp add: construct_and_compute_def init compute_bytes blk)
  moreover have "\<forall>i<72. map2 (XOR) (K @ replicate 8 0) (replicate 72 0x36) ! i
                     = (K @ replicate 8 0) ! i XOR 0x36"
    using assms by simp
  ultimately show ?thesis using assms by simp
qed

theorem hmac_bytes_message_digest_witness:
  "length (concat (replicate 8 [0x01, 0x23, 0x45, 0x67, 0x89, 0xAB, 0xCD, 0xEF :: byte])) = 64
   \<and> construct_and_compute
        (KeyBytes (concat (replicate 8 [0x01, 0x23, 0x45, 0x67, 0x89, 0xAB, 0xCD, 0xEF])))
        (MsgBytes [0xEF, 0xBE, 0xAD, 0xDE]) [] =
      (Inr (sha3_512 (concat (replicate 8 [0x37, 0x15, 0x73, 0x51, 0xBF, 0x9D, 0xFB, 0xD9])
                      @ replicate 8 0x36 @ [0xEF, 0xBE, 0xAD, 0xDE])),
       [concat (replicate 8 [0x37, 0x15, 0x73, 0x51, 0xBF, 0x9D, 0xFB, 0xD9])
        @ replicate 8 0x36 @ [0xEF, 0xBE, 0xAD, 0xDE]])"
proof -
  have len: "length (concat (replicate 8 [0x01, 0x23, 0x45, 0x67, 0x89, 0xAB, 0xCD, 0xEF :: byte])) = 64"
    by (simp add: eval_nat_numeral)
  have blk: "map2 (XOR) (concat (replicate 8 [0x01, 0x23, 0x45, 0x67, 0x89, 0xAB, 0xCD, 0xEF]) @ replicate 8 0)
               (replicate 72 (0x36::byte)) =
             concat (replicate 8 [0x37, 0x15, 0x73, 0x51, 0xBF, 0x9D, 0xFB, 0xD9]) @ replicate 8 0x36"
    by code_simp
  from hmac_bytes_message_digest [OF len, of "[0xEF, 0xBE, 0xAD, 0xDE]" "[]"] len blk
  show ?thesis by simp
qed

text \<open>
  C2. For every integer \<open>V\<close> with \<open>0 \<le> V < 2^704\<close>, \<open>hash_puf_mode(V)\<close> hashes the
  88 bytes whose byte \<open>i\<close> is \<open>V div 256^i mod 256\<close> (the little-endian form of the whole
  integer, which decodes back to \<open>V\<close>) and returns their SHA3-512 digest. The integer whose 88
  bytes are all \<open>0xAA\<close>, read in either byte order, is \<open>int('AA' * 88, 16)\<close>, and for it
  the result is the digest of the buffer of 88 bytes \<open>0xAA\<close>.
\<close>

theorem puf_mode_whole_little_endian:
  "(0 \<le> V \<and> V < 2 ^ 704 \<longrightarrow>
      (let bs = map (\<lambda>i. word_of_int (V div 256 ^ i)) [0..<88]
       in length bs = 88 \<and> from_bytes bs Little = V
          \<and> hash_puf_mode V log = (Inr (sha3_512 bs), log @ [bs])))
   \<and> from_bytes (replicate 88 0xAA) Big = puf_data_1
   \<and> hash_puf_mode (from_bytes (replicate 88 0xAA) Big) log =
       (Inr (sha3_512 (replicate 88 0xAA)), log @ [replicate 88 0xAA])
   \<and> hash_puf_mode (from_bytes (replicate 88 0xAA) Little) log =
       (Inr (sha3_512 (replicate 88 0xAA)), log @ [replicate 88 0xAA])"
proof (intro conjI impI)
  show "from_bytes (replicate 88 0xAA) Big = puf_data_1"
    by (rule puf_data_1_bytes)
next
  assume V: "0 \<le> V \<and> V < 2 ^ 704"
  then have "V < 256 ^ 88" by (simp add: pow256)
  with V have "from_le (le_digits 88 V) = V" by (simp add: from_le_le_digits)
  with V show "let bs = map (\<lambda>i. word_of_int (V div 256 ^ i)) [0..<88]
       in length bs = 88 \<and> from_bytes bs Little = V
          \<and> hash_puf_mode V log = (Inr (sha3_512 bs), log @ [bs])"
    unfolding Let_def le_digits_map [symmetric]
    by (simp add: hash_puf_mode_ok from_bytes_def)
next
  define A :: bytes where "A = replicate 88 0xAA"
  have len: "length A = 88" by (simp add: A_def)
  have "from_le A < 256 ^ 88" using from_le_bounds [of A] by (simp add: len)
  then have ub: "from_le A < 2 ^ 704" by (simp add: pow256)
  have lb: "0 \<le> from_le A" using from_le_bounds [of A] by simp
  have "le_digits 88 (from_le A) = A" using le_digits_from_le [of A] by (simp add: len)
  with hash_puf_mode_ok [OF lb ub, of log]
  have *: "hash_puf_mode (from_le A) log = (Inr (sha3_512 A), log @ [A])" by simp
  then show "hash_puf_mode (from_bytes (replicate 88 0xAA) Little) log =
       (Inr (sha3_512 (replicate 88 0xAA)), log @ [replicate 88 0xAA])"
    by (simp add: from_bytes_def A_def)
  from * show "hash_puf_mode (from_bytes (replicate 88 0xAA) Big) log =
       (Inr (sha3_512 (replicate 88 0xAA)), log @ [replicate 88 0xAA])"
    by (simp add: from_bytes_def A_def)
qed

theorem puf_mode_whole_little_endian_witness:
  "(0::int) \<le> 0x0102 \<and> (0x0102::int) < 2 ^ 704
   \<and> hash_puf_mode 0x0102 [] =
       (Inr (sha3_512 (0x02 # 0x01 # replicate 86 0)), [0x02 # 0x01 # replicate 86 0])"
proof -
  have V: "(0::int) \<le> 0x0102 \<and> (0x0102::int) < 2 ^ 704" by simp
  have bs: "map (\<lambda>i. word_of_int (0x0102 div 256 ^ i)) [0..<88] = (0x02 # 0x01 # replicate 86 0 :: bytes)"
    by code_simp
  from puf_mode_whole_little_endian [of "0x0102" "[]"] V bs
  show ?thesis by (simp add: Let_def)
qed

text \<open>
  C3. For every sequence of words \<open>W\<close>, each in \<open>[0, 2^32)\<close>, \<open>hash_block_mode(W)\<close>
  hashes 4 bytes per word: byte \<open>j\<close> of word \<open>k\<close>, which is \<open>W[k] div 256^j mod 256\<close>
  (least significant byte first), stands at offset \<open>4 * k + j\<close>, so the first word occupies
  the lowest offsets. The result is the SHA3-512 digest of that byte string. For
  \<open>W = [0x12345678]\<close> the bytes hashed are \<open>78 56 34 12\<close>.
\<close>

theorem block_mode_words_little_endian:
  "(list_all word_in_range W \<longrightarrow>
      length (concat (map word_le4 W)) = 4 * length W
      \<and> (\<forall>k<length W. \<forall>j<4.
            concat (map word_le4 W) ! (4 * k + j) = word_of_int (W ! k div 256 ^ j))
      \<and> hash_block_mode W log =
          (Inr (sha3_512 (concat (map word_le4 W))), log @ [concat (map word_le4 W)]))
   \<and> hash_block_mode [0x12345678] log =
       (Inr (sha3_512 [0x78, 0x56, 0x34, 0x12]), log @ [[0x78, 0x56, 0x34, 0x12]])"
proof (intro conjI impI allI)
  assume "list_all word_in_range W"
  then show "hash_block_mode W log =
          (Inr (sha3_512 (concat (map word_le4 W))), log @ [concat (map word_le4 W)])"
    by (rule hash_block_mode_ok)
next
  show "length (concat (map word_le4 W)) = 4 * length W"
    by (rule length_concat_le4)
next
  fix k j :: nat
  assume "k < length W" and "j < 4"
  then show "concat (map word_le4 W) ! (4 * k + j) = word_of_int (W ! k div 256 ^ j)"
    by (rule concat_le4_nth)
next
  have "list_all word_in_range [0x12345678]" by (simp add: word_in_range_def)
  then have "hash_block_mode [0x12345678] log =
     (Inr (sha3_512 (concat (map word_le4 [0x12345678]))),
      log @ [concat (map word_le4 [0x12345678])])"
    by (rule hash_block_mode_ok)
  moreover have "concat (map word_le4 [0x12345678]) = [0x78, 0x56, 0x34, 0x12]"
    by (simp add: word_le4_def)
  ultimately show "hash_block_mode [0x12345678] log =
       (Inr (sha3_512 [0x78, 0x56, 0x34, 0x12]), log @ [[0x78, 0x56, 0x34, 0x12]])"
    by simp
qed

theorem block_mode_words_little_endian_witness:
  "list_all word_in_range [0xDEADBEEF, 0xCAFEBABE]
   \<and> hash_block_mode [0xDEADBEEF, 0xCAFEBABE] [] =
       (Inr (sha3_512 [0xEF, 0xBE, 0xAD, 0xDE, 0xBE, 0xBA, 0xFE, 0xCA]),
        [[0xEF, 0xBE, 0xAD, 0xDE, 0xBE, 0xBA, 0xFE, 0xCA]])"
proof -
  have ok: "list_all word_in_range [0xDEADBEEF, 0xCAFEBABE]"
    by (simp add: word_in_range_def)
  have "concat (map word_le4 [0xDEADBEEF, 0xCAFEBABE]) =
        [0xEF, 0xBE, 0xAD, 0xDE, 0xBE, 0xBA, 0xFE, 0xCA]"
    by (simp add: word_le4_def)
  with block_mode_words_little_endian [of "[0xDEADBEEF, 0xCAFEBABE]" "[]"] ok
  show ?thesis by simp
qed

text \<open>
  C4. For every bytes key whose length is not 64, the constructor raises the key-length
  error (Python's \<open>ValueError\<close>, with the offending length), so constructing and computing
  ends with that error, whatever the message, and leaves the log of the hash as it was:
  the hash is not invoked and there is no digest.
\<close>

theorem invalid_key_length_rejected:
  "length K \<noteq> 64 \<Longrightarrow>
   init (KeyBytes K) = Inl (ValueError (length K))
   \<and> construct_and_compute (KeyBytes K) message log = (Inl (ValueError (length K)), log)"
  by (simp add: init_def construct_and_compute_def)

theorem invalid_key_length_rejected_witness:
  "length (replicate 63 (0::byte)) \<noteq> 64
   \<and> init (KeyBytes (replicate 63 0)) = Inl (ValueError 63)
   \<and> construct_and_compute (KeyBytes (replicate 63 0)) (MsgList [0xDEADBEEF, 0xCAFEBABE]) [] =
       (Inl (ValueError 63), [])"
proof -
  have len: "length (replicate 63 (0::byte)) \<noteq> 64" by simp
  from invalid_key_length_rejected [OF len, of "MsgList [0xDEADBEEF, 0xCAFEBABE]" "[]"] len
  show ?thesis by simp
qed

text \<open>
  C5. For every word list that contains a word below 0 or at least \<open>2^32\<close>, \<open>compute\<close>,
  \<open>compute_hex\<close> and \<open>hash_block_mode\<close> raise the range error of \<open>int.to_bytes\<close>
  (Python's \<open>OverflowError\<close>): no digest is returned and the hash is not invoked, so the
  word is not truncated.
\<close>

theorem word_out_of_range_rejected:
  assumes "w \<in> set W" and "w < 0 \<or> 2 ^ 32 \<le> w"
  shows "compute self (MsgList W) log = (Inl OverflowError, self, log)
       \<and> compute_hex self (MsgList W) log = (Inl OverflowError, self, log)
       \<and> hash_block_mode W log = (Inl OverflowError, log)"
proof -
  have bad: "\<not> list_all word_in_range W" using assms by (rule not_all_in_range)
  then have "compute self (MsgList W) log = (Inl OverflowError, self, log)"
    by (rule compute_words_bad)
  moreover from this have "compute_hex self (MsgList W) log = (Inl OverflowError, self, log)"
    by (simp add: compute_hex_def)
  moreover have "hash_block_mode W log = (Inl OverflowError, log)"
    using bad by (rule hash_block_mode_bad)
  ultimately show ?thesis by simp
qed

theorem word_out_of_range_rejected_witness:
  "(0x100000000::int) \<in> set [0xDEADBEEF, 0x100000000]
   \<and> (2::int) ^ 32 \<le> 0x100000000
   \<and> compute \<lparr>key = replicate 64 0x5A\<rparr> (MsgList [0xDEADBEEF, 0x100000000]) [] =
       (Inl OverflowError, \<lparr>key = replicate 64 0x5A\<rparr>, [])
   \<and> hash_block_mode [0xDEADBEEF, 0x100000000] [] = (Inl OverflowError, [])"
proof -
  have mem: "(0x100000000::int) \<in> set [0xDEADBEEF, 0x100000000]" by simp
  have big: "(0x100000000::int) < 0 \<or> 2 ^ 32 \<le> (0x100000000::int)" by simp
  from word_out_of_range_rejected [OF mem big, of "\<lparr>key = replicate 64 0x5A\<rparr>" "[]"] mem
  show ?thesis by simp
qed

text \<open>
  C6. For every successfully constructed instance and every word sequence \<open>W\<close> with each
  word in \<open>[0, 2^32)\<close>, the specification's \<open>encode_words_le(W)\<close> succeeds with some byte
  string \<open>B\<close>, and computing on the word sequence gives the same result as computing on
  \<open>B\<close>: the digest of the XOR block followed by \<open>B\<close>.
\<close>

theorem words_and_encoded_bytes_agree:
  assumes "init k = Inr self" and "list_all word_in_range W"
  shows "\<exists>B. encode_words_le W = Inr B
           \<and> compute self (MsgList W) log = compute self (MsgBytes B) log
           \<and> construct_and_compute k (MsgList W) log = construct_and_compute k (MsgBytes B) log
           \<and> construct_and_compute k (MsgList W) log =
               (Inr (sha3_512 (compute_ipad_block self @ B)), log @ [compute_ipad_block self @ B])"
proof -
  let ?B = "concat (map word_le4 W)"
  have enc: "encode_words_le W = Inr ?B"
    using assms(2) by (rule encode_words_le_ok)
  have eq: "compute self (MsgList W) log = compute self (MsgBytes ?B) log"
    using assms(2) by (rule compute_words)
  have "construct_and_compute k (MsgBytes ?B) log =
          (Inr (sha3_512 (compute_ipad_block self @ ?B)), log @ [compute_ipad_block self @ ?B])"
    by (simp add: construct_and_compute_ok [OF assms(1)] compute_bytes)
  moreover have "construct_and_compute k (MsgList W) log = construct_and_compute k (MsgBytes ?B) log"
    by (simp add: construct_and_compute_ok [OF assms(1)] eq)
  ultimately show ?thesis using enc eq by simp
qed

theorem words_and_encoded_bytes_agree_witness:
  "init (KeyBytes (replicate 64 0x5A)) = Inr \<lparr>key = replicate 64 0x5A\<rparr>
   \<and> list_all word_in_range [0xDEADBEEF, 0xCAFEBABE]
   \<and> encode_words_le [0xDEADBEEF, 0xCAFEBABE] =
        Inr [0xEF, 0xBE, 0xAD, 0xDE, 0xBE, 0xBA, 0xFE, 0xCA]
   \<and> compute \<lparr>key = replicate 64 0x5A\<rparr> (MsgList [0xDEADBEEF, 0xCAFEBABE]) [] =
       compute \<lparr>key = replicate 64 0x5A\<rparr>
         (MsgBytes [0xEF, 0xBE, 0xAD, 0xDE, 0xBE, 0xBA, 0xFE, 0xCA]) []"
proof -
  have i: "init (KeyBytes (replicate 64 0x5A)) = Inr \<lparr>key = replicate 64 0x5A\<rparr>"
    by (simp add: init_def)
  have ok: "list_all word_in_range [0xDEADBEEF, 0xCAFEBABE]"
    by (simp add: word_in_range_def)
  have enc: "encode_words_le [0xDEADBEEF, 0xCAFEBABE] =
        Inr [0xEF, 0xBE, 0xAD, 0xDE, 0xBE, 0xBA, 0xFE, 0xCA]"
    by (simp add: encode_words_le_def word_in_range_def word_le4_def)
  from words_and_encoded_bytes_agree [OF i ok, of "[]"] i ok enc
  show ?thesis by auto
qed

text \<open>
  C7. For every successfully constructed instance, the empty message, as zero words or as
  zero bytes, is accepted, and the digest is SHA3-512 of the 72-byte XOR block alone.
\<close>

theorem empty_message_digest:
  assumes "init k = Inr self"
  shows "length (compute_ipad_block self) = 72
       \<and> compute_ipad_block self = map2 (XOR) (key self @ replicate 8 0) (replicate 72 0x36)
       \<and> compute self (MsgList []) log =
           (Inr (sha3_512 (compute_ipad_block self)), self, log @ [compute_ipad_block self])
       \<and> compute self (MsgBytes []) log =
           (Inr (sha3_512 (compute_ipad_block self)), self, log @ [compute_ipad_block self])
       \<and> construct_and_compute k (MsgList []) log =
           (Inr (sha3_512 (compute_ipad_block self)), log @ [compute_ipad_block self])
       \<and> construct_and_compute k (MsgBytes []) log =
           (Inr (sha3_512 (compute_ipad_block self)), log @ [compute_ipad_block self])"
proof -
  have len: "length (compute_ipad_block self) = 72"
    using assms by (simp add: init_key_length length_ipad_block)
  have b: "compute self (MsgBytes []) log =
           (Inr (sha3_512 (compute_ipad_block self)), self, log @ [compute_ipad_block self])"
    by (simp add: compute_bytes)
  have "list_all word_in_range []" by simp
  then have "compute self (MsgList []) log = compute self (MsgBytes (concat (map word_le4 []))) log"
    by (rule compute_words)
  with b have w: "compute self (MsgList []) log =
           (Inr (sha3_512 (compute_ipad_block self)), self, log @ [compute_ipad_block self])"
    by simp
  show ?thesis
    using len b w by (simp add: construct_and_compute_ok [OF assms] ipad_block_eq [symmetric])
qed

theorem empty_message_digest_witness:
  "init (KeyBytes (replicate 64 0x5A)) = Inr \<lparr>key = replicate 64 0x5A\<rparr>
   \<and> construct_and_compute (KeyBytes (replicate 64 0x5A)) (MsgList []) [] =
       (Inr (sha3_512 (replicate 64 0x6C @ replicate 8 0x36)),
        [replicate 64 0x6C @ replicate 8 0x36])
   \<and> construct_and_compute (KeyBytes (replicate 64 0x5A)) (MsgBytes []) [] =
       (Inr (sha3_512 (replicate 64 0x6C @ replicate 8 0x36)),
        [replicate 64 0x6C @ replicate 8 0x36])"
proof -
  have i: "init (KeyBytes (replicate 64 0x5A)) = Inr \<lparr>key = replicate 64 0x5A\<rparr>"
    by (simp add: init_def)
  have blk: "map2 (XOR) (replicate 64 0x5A @ replicate 8 0) (replicate 72 (0x36::byte)) =
             replicate 64 0x6C @ replicate 8 0x36"
    by code_simp
  from empty_message_digest [OF i, of "[]"] i blk
  show ?thesis by simp
qed

text \<open>
  C8. For every key \<open>K\<close> of 64 bytes, the padded key block is \<open>K\<close> followed by 8 zero
  bytes, the XOR block is the padded key block XOR 72 bytes \<open>0x36\<close>, and XOR-ing the 72
  bytes \<open>0x36\<close> into the XOR block gives back the padded key block.
\<close>

theorem xor_block_involution:
  assumes "length K = 64"
  shows "init (KeyBytes K) = Inr \<lparr>key = K\<rparr>
       \<and> pad_key \<lparr>key = K\<rparr> = K @ replicate 8 0
       \<and> length (pad_key \<lparr>key = K\<rparr>) = 72
       \<and> compute_ipad_block \<lparr>key = K\<rparr> = map2 (XOR) (pad_key \<lparr>key = K\<rparr>) (replicate 72 0x36)
       \<and> map2 (XOR) (compute_ipad_block \<lparr>key = K\<rparr>) (replicate 72 0x36) = K @ replicate 8 0"
proof -
  have len: "length (pad_key \<lparr>key = K\<rparr>) = length (replicate 72 (0x36::byte))"
    using assms by (simp add: pad_key_def)
  have blk: "compute_ipad_block \<lparr>key = K\<rparr> = map2 (XOR) (pad_key \<lparr>key = K\<rparr>) (replicate 72 0x36)"
    by (simp add: compute_ipad_block_def IPAD_BYTE_def)
  have "map2 (XOR) (map2 (XOR) (pad_key \<lparr>key = K\<rparr>) (replicate 72 0x36)) (replicate 72 0x36)
          = pad_key \<lparr>key = K\<rparr>"
    using len by (rule map2_xor_twice)
  with blk have "map2 (XOR) (compute_ipad_block \<lparr>key = K\<rparr>) (replicate 72 0x36) = K @ replicate 8 0"
    by (simp add: pad_key_def)
  with blk len show ?thesis
    using assms by (simp add: init_bytes) (simp add: pad_key_def)
qed

theorem xor_block_involution_witness:
  "length (replicate 64 (0x5A::byte)) = 64
   \<and> compute_ipad_block \<lparr>key = replicate 64 0x5A\<rparr> = replicate 64 0x6C @ replicate 8 0x36
   \<and> map2 (XOR) (replicate 64 0x6C @ replicate 8 0x36) (replicate 72 0x36) =
       replicate 64 0x5A @ replicate 8 (0::byte)"
proof -
  have len: "length (replicate 64 (0x5A::byte)) = 64" by simp
  have blk: "map2 (XOR) (replicate 64 0x5A @ replicate 8 0) (replicate 72 (0x36::byte)) =
             replicate 64 0x6C @ replicate 8 0x36"
    by code_simp
  from xor_block_involution [OF len]
  have a: "compute_ipad_block \<lparr>key = replicate 64 0x5A\<rparr> =
             map2 (XOR) (pad_key \<lparr>key = replicate 64 0x5A\<rparr>) (replicate 72 0x36)"
    and b: "map2 (XOR) (compute_ipad_block \<lparr>key = replicate 64 0x5A\<rparr>) (replicate 72 0x36) =
             replicate 64 0x5A @ replicate 8 0"
    by blast+
  from a blk have c: "compute_ipad_block \<lparr>key = replicate 64 0x5A\<rparr> =
             replicate 64 0x6C @ replicate 8 0x36"
    by (simp add: pad_key_def)
  from b c len show ?thesis by simp
qed

text \<open>
  C9. An integer key \<open>K\<close> with \<open>0 \<le> K < 2^512\<close> is accepted: the stored key is the
  64-byte big-endian form of \<open>K\<close> (it has 64 bytes and decodes back to \<open>K\<close>), and when
  \<open>K\<close> fits in \<open>n \<le> 64\<close> bytes it is the \<open>n\<close>-byte big-endian form preceded by
  \<open>64 - n\<close> zero bytes. The constructor gives the same instance for that byte string, so
  both forms of the key give the same result for the same message. A negative integer and an
  integer of \<open>2^512\<close> or more make the constructor raise (Python's \<open>OverflowError\<close>), and
  the hash is not invoked.
\<close>

theorem integer_key_normalised:
  "(0 \<le> K \<and> K < 2 ^ 512 \<longrightarrow>
      (\<exists>kb. init (KeyInt K) = Inr \<lparr>key = kb\<rparr>
            \<and> length kb = 64 \<and> from_bytes kb Big = K
            \<and> (\<forall>n\<le>64. K < 256 ^ n \<longrightarrow>
                  kb = replicate (64 - n) 0
                       @ map (\<lambda>i. word_of_int (K div 256 ^ (n - 1 - i))) [0..<n])
            \<and> init (KeyBytes kb) = init (KeyInt K)
            \<and> construct_and_compute (KeyInt K) message log =
                construct_and_compute (KeyBytes kb) message log))
   \<and> (K < 0 \<or> 2 ^ 512 \<le> K \<longrightarrow>
        init (KeyInt K) = Inl OverflowError
        \<and> construct_and_compute (KeyInt K) message log = (Inl OverflowError, log))"
proof (intro conjI impI)
  assume K: "0 \<le> K \<and> K < 2 ^ 512"
  let ?kb = "rev (le_digits 64 K)"
  have i: "init (KeyInt K) = Inr \<lparr>key = ?kb\<rparr>" using K by (simp add: init_int_ok)
  have ib: "init (KeyBytes ?kb) = Inr \<lparr>key = ?kb\<rparr>" by (simp add: init_bytes)
  from K have "K < 256 ^ 64" by (simp add: pow256)
  with K have val: "from_bytes ?kb Big = K" by (simp add: from_bytes_def from_le_le_digits)
  have ext: "\<forall>n\<le>64. K < 256 ^ n \<longrightarrow>
                  ?kb = replicate (64 - n) 0
                       @ map (\<lambda>i. word_of_int (K div 256 ^ (n - 1 - i))) [0..<n]"
    using K by (simp add: be_zero_extended)
  have cc: "construct_and_compute (KeyInt K) message log =
                construct_and_compute (KeyBytes ?kb) message log"
    by (simp add: construct_and_compute_def i ib)
  show "\<exists>kb. init (KeyInt K) = Inr \<lparr>key = kb\<rparr>
            \<and> length kb = 64 \<and> from_bytes kb Big = K
            \<and> (\<forall>n\<le>64. K < 256 ^ n \<longrightarrow>
                  kb = replicate (64 - n) 0
                       @ map (\<lambda>i. word_of_int (K div 256 ^ (n - 1 - i))) [0..<n])
            \<and> init (KeyBytes kb) = init (KeyInt K)
            \<and> construct_and_compute (KeyInt K) message log =
                construct_and_compute (KeyBytes kb) message log"
    using i ib val ext cc by (intro exI [of _ ?kb]) simp
next
  assume "K < 0 \<or> 2 ^ 512 \<le> K"
  then have e: "init (KeyInt K) = Inl OverflowError" by (rule init_int_overflow)
  then show "init (KeyInt K) = Inl OverflowError" .
  from e show "construct_and_compute (KeyInt K) message log = (Inl OverflowError, log)"
    by (simp add: construct_and_compute_def)
qed

theorem integer_key_normalised_witness:
  "(0::int) \<le> 0x0102 \<and> (0x0102::int) < 2 ^ 512
   \<and> init (KeyInt 0x0102) = Inr \<lparr>key = replicate 62 0 @ [0x01, 0x02]\<rparr>
   \<and> construct_and_compute (KeyInt 0x0102) (MsgList [0xDEADBEEF]) [] =
       construct_and_compute (KeyBytes (replicate 62 0 @ [0x01, 0x02])) (MsgList [0xDEADBEEF]) []
   \<and> (2::int) ^ 512 \<le> 2 ^ 512
   \<and> init (KeyInt (2 ^ 512)) = Inl OverflowError
   \<and> init (KeyInt (- 1)) = Inl OverflowError"
proof -
  have K: "(0::int) \<le> 0x0102 \<and> (0x0102::int) < 2 ^ 512" by simp
  have small: "(2::nat) \<le> 64 \<and> (0x0102::int) < 256 ^ 2" by simp
  have be: "map (\<lambda>i. word_of_int (0x0102 div 256 ^ (2 - 1 - i))) [0..<2] = [0x01, 0x02 :: byte]"
    by code_simp
  from integer_key_normalised [of "0x0102" "MsgList [0xDEADBEEF]" "[]"] K
  obtain kb where kb: "init (KeyInt 0x0102) = Inr \<lparr>key = kb\<rparr>"
    and ext: "\<forall>n\<le>64. (0x0102::int) < 256 ^ n \<longrightarrow>
                  kb = replicate (64 - n) 0
                       @ map (\<lambda>i. word_of_int (0x0102 div 256 ^ (n - 1 - i))) [0..<n]"
    and cc: "construct_and_compute (KeyInt 0x0102) (MsgList [0xDEADBEEF]) [] =
                construct_and_compute (KeyBytes kb) (MsgList [0xDEADBEEF]) []"
    by blast
  from ext small have "kb = replicate (64 - 2) 0
                       @ map (\<lambda>i. word_of_int (0x0102 div 256 ^ (2 - 1 - i))) [0..<2]"
    by blast
  with be have kbv: "kb = replicate 62 0 @ [0x01, 0x02]" by simp
  have big: "(2::int) ^ 512 < 0 \<or> (2::int) ^ 512 \<le> 2 ^ 512" by simp
  have neg: "(- 1::int) < 0 \<or> 2 ^ 512 \<le> (- 1::int)" by simp
  from integer_key_normalised [of "2 ^ 512" "MsgList [0xDEADBEEF]" "[]"] big
  have e1: "init (KeyInt (2 ^ 512)) = Inl OverflowError" by blast
  from integer_key_normalised [of "- 1" "MsgList [0xDEADBEEF]" "[]"] neg
  have e2: "init (KeyInt (- 1)) = Inl OverflowError" by blast
  from K kb cc kbv e1 e2 show ?thesis by simp
qed

text \<open>
  C10. Every successfully constructed instance holds a key of exactly 64 bytes; \<open>compute\<close>
  and \<open>compute_hex\<close> leave the instance as it was, whatever the message; and for a valid
  message (bytes, or words each in \<open>[0, 2^32)\<close>) \<open>compute\<close> does not fail: it runs the
  hash once, on the 72-byte XOR block of the stored key followed by the encoded message, and
  returns that SHA3-512 digest, which has exactly 64 bytes; \<open>compute_hex\<close> returns the 128
  hexadecimal characters of the same digest.
\<close>

theorem instance_key_invariant:
  assumes "init k = Inr self"
  shows "length (key self) = 64
       \<and> fst (snd (compute self message log)) = self
       \<and> fst (snd (compute_hex self message log)) = self
       \<and> compute_ipad_block self = map2 (XOR) (key self @ replicate 8 0) (replicate 72 0x36)
       \<and> length (compute_ipad_block self) = 72
       \<and> (valid_message message \<longrightarrow>
            compute self message log =
              (Inr (sha3_512 (compute_ipad_block self @ message_bytes message)), self,
               log @ [compute_ipad_block self @ message_bytes message])
            \<and> length (sha3_512 (compute_ipad_block self @ message_bytes message)) = 64
            \<and> compute_hex self message log =
                (Inr (hex (sha3_512 (compute_ipad_block self @ message_bytes message))), self,
                 log @ [compute_ipad_block self @ message_bytes message])
            \<and> length (hex (sha3_512 (compute_ipad_block self @ message_bytes message))) = 128)"
proof (intro conjI impI)
  show len: "length (key self) = 64" using assms by (rule init_key_length)
  show "fst (snd (compute self message log)) = self" by (rule compute_keeps_instance)
  show "fst (snd (compute_hex self message log)) = self" by (rule compute_hex_keeps_instance)
  show "compute_ipad_block self = map2 (XOR) (key self @ replicate 8 0) (replicate 72 0x36)"
    by (rule ipad_block_eq)
  show "length (compute_ipad_block self) = 72" using len by (rule length_ipad_block)
  show "length (sha3_512 (compute_ipad_block self @ message_bytes message)) = 64"
    by (rule length_sha3_512)
  show "length (hex (sha3_512 (compute_ipad_block self @ message_bytes message))) = 128"
    by (simp add: length_hex length_sha3_512)
  assume "valid_message message"
  then show c: "compute self message log =
              (Inr (sha3_512 (compute_ipad_block self @ message_bytes message)), self,
               log @ [compute_ipad_block self @ message_bytes message])"
    by (rule compute_valid)
  then show "compute_hex self message log =
                (Inr (hex (sha3_512 (compute_ipad_block self @ message_bytes message))), self,
                 log @ [compute_ipad_block self @ message_bytes message])"
    by (simp add: compute_hex_def)
qed

theorem instance_key_invariant_witness:
  "init (KeyBytes (replicate 64 0x5A)) = Inr \<lparr>key = replicate 64 0x5A\<rparr>
   \<and> valid_message (MsgList [0xDEADBEEF, 0xCAFEBABE])
   \<and> length (key \<lparr>key = replicate 64 0x5A\<rparr>) = 64
   \<and> compute \<lparr>key = replicate 64 0x5A\<rparr> (MsgList [0xDEADBEEF, 0xCAFEBABE]) [] =
       (Inr (sha3_512 (replicate 64 0x6C @ replicate 8 0x36
                       @ [0xEF, 0xBE, 0xAD, 0xDE, 0xBE, 0xBA, 0xFE, 0xCA])),
        \<lparr>key = replicate 64 0x5A\<rparr>,
        [replicate 64 0x6C @ replicate 8 0x36
         @ [0xEF, 0xBE, 0xAD, 0xDE, 0xBE, 0xBA, 0xFE, 0xCA]])
   \<and> length (sha3_512 (replicate 64 0x6C @ replicate 8 0x36
                        @ [0xEF, 0xBE, 0xAD, 0xDE, 0xBE, 0xBA, 0xFE, 0xCA])) = 64
   \<and> compute_hex \<lparr>key = replicate 64 0x5A\<rparr> (MsgList [0xDEADBEEF, 0xCAFEBABE]) [] =
       (Inr (hex (sha3_512 (replicate 64 0x6C @ replicate 8 0x36
                            @ [0xEF, 0xBE, 0xAD, 0xDE, 0xBE, 0xBA, 0xFE, 0xCA]))),
        \<lparr>key = replicate 64 0x5A\<rparr>,
        [replicate 64 0x6C @ replicate 8 0x36
         @ [0xEF, 0xBE, 0xAD, 0xDE, 0xBE, 0xBA, 0xFE, 0xCA]])"
proof -
  have i: "init (KeyBytes (replicate 64 0x5A)) = Inr \<lparr>key = replicate 64 0x5A\<rparr>"
    by (simp add: init_def)
  have v: "valid_message (MsgList [0xDEADBEEF, 0xCAFEBABE])"
    by (simp add: word_in_range_def)
  have blk: "map2 (XOR) (replicate 64 0x5A @ replicate 8 0) (replicate 72 (0x36::byte)) =
             replicate 64 0x6C @ replicate 8 0x36"
    by code_simp
  have msg: "message_bytes (MsgList [0xDEADBEEF, 0xCAFEBABE]) =
             [0xEF, 0xBE, 0xAD, 0xDE, 0xBE, 0xBA, 0xFE, 0xCA]"
    by (simp add: word_le4_def)
  note t = instance_key_invariant [OF i, of "MsgList [0xDEADBEEF, 0xCAFEBABE]" "[]"]
  from t blk have x: "compute_ipad_block \<lparr>key = replicate 64 0x5A\<rparr> =
             replicate 64 0x6C @ replicate 8 0x36"
    by simp
  from t v i show ?thesis
    unfolding x msg by simp
qed

end
